theory Spec2Isabelle
  imports Main "HOL-Library.Word"
begin

section \<open>Machine numbers\<close>

text \<open>
  The program computes with Go's \<open>int32\<close> and \<open>float32\<close>. An \<open>int32\<close> is a 32-bit word
  read in two's complement, so \<open>+\<close>, \<open>-\<close> and \<open>*\<close> wrap around as Go's do.
\<close>

type_synonym int32 = "32 word"

text \<open>
  A \<open>float32\<close> is an IEEE 754 binary32 value: a NaN, a signed infinity, or a finite number
  \<open>(-1)\<^sup>s * m * 2\<^sup>e\<close> kept in the format's own normal form: \<open>0 \<le> m < 2\<^sup>2\<^sup>4\<close>, \<open>-149 \<le> e \<le> 104\<close>,
  and \<open>m < 2\<^sup>2\<^sup>3\<close> only at the least exponent \<open>-149\<close> (subnormals and the two zeros).
  The sign is \<open>True\<close> for negative. NaN payloads are not distinguished.
  Every operation rounds its exact result to nearest, ties to even, one operation at a
  time, as Go does where it does not fuse a product into a sum.
\<close>

datatype float32 = NaN | Infty bool | Fin bool int int

text \<open>The number of binary digits of a positive integer.\<close>

function bits :: "int \<Rightarrow> nat" where
  "bits n = (if n \<le> 0 then 0 else Suc (bits (n div 2)))"
  by pat_completeness auto
termination
  by (relation "measure nat") auto

declare bits.simps [simp del]

definition fzero :: float32 where
  "fzero = Fin False 0 (-149)"

text \<open>\<open>round32 s M E\<close> is the binary32 value nearest to \<open>(-1)\<^sup>s * M * 2\<^sup>E\<close>.\<close>

definition round32 :: "bool \<Rightarrow> int \<Rightarrow> int \<Rightarrow> float32" where
  "round32 s M E =
     (if M = 0 then Fin s 0 (-149)
      else
        let e = max (-149) (int (bits M) + E - 24) in
        if e \<le> E then
          (if 104 < e then Infty s else Fin s (M * 2 ^ nat (E - e)) e)
        else
          let sh = nat (e - E);
              q = M div 2 ^ sh;
              r = M mod 2 ^ sh;
              half = 2 ^ (sh - 1);
              q' = (if half < r \<or> (r = half \<and> odd q) then q + 1 else q);
              m = (if q' = 2 ^ 24 then 2 ^ 23 else q');
              e' = (if q' = 2 ^ 24 then e + 1 else e)
          in if 104 < e' then Infty s else Fin s m e')"

definition signed :: "bool \<Rightarrow> int \<Rightarrow> int" where
  "signed s m = (if s then - m else m)"

fun fadd :: "float32 \<Rightarrow> float32 \<Rightarrow> float32" where
  "fadd NaN y = NaN"
| "fadd (Infty s) NaN = NaN"
| "fadd (Infty s) (Infty t) = (if s = t then Infty s else NaN)"
| "fadd (Infty s) (Fin t n k) = Infty s"
| "fadd (Fin s m e) NaN = NaN"
| "fadd (Fin s m e) (Infty t) = Infty t"
| "fadd (Fin s m e) (Fin t n k) =
     (let E = min e k;
          v = signed s (m * 2 ^ nat (e - E)) + signed t (n * 2 ^ nat (k - E))
      in if v = 0 then Fin (s \<and> t) 0 (-149)
         else round32 (v < 0) \<bar>v\<bar> E)"

fun fmul :: "float32 \<Rightarrow> float32 \<Rightarrow> float32" where
  "fmul NaN y = NaN"
| "fmul (Infty s) NaN = NaN"
| "fmul (Infty s) (Infty t) = Infty (s \<noteq> t)"
| "fmul (Infty s) (Fin t n k) = (if n = 0 then NaN else Infty (s \<noteq> t))"
| "fmul (Fin s m e) NaN = NaN"
| "fmul (Fin s m e) (Infty t) = (if m = 0 then NaN else Infty (s \<noteq> t))"
| "fmul (Fin s m e) (Fin t n k) = round32 (s \<noteq> t) (m * n) (e + k)"

text \<open>The comparisons of Go: every comparison with a NaN is false, and \<open>-0 = +0\<close>.\<close>

fun flt :: "float32 \<Rightarrow> float32 \<Rightarrow> bool" where
  "flt NaN y = False"
| "flt (Infty s) NaN = False"
| "flt (Infty s) (Infty t) = (s \<and> \<not> t)"
| "flt (Infty s) (Fin t n k) = s"
| "flt (Fin s m e) NaN = False"
| "flt (Fin s m e) (Infty t) = (\<not> t)"
| "flt (Fin s m e) (Fin t n k) =
     (let E = min e k
      in signed s (m * 2 ^ nat (e - E)) < signed t (n * 2 ^ nat (k - E)))"

fun feq :: "float32 \<Rightarrow> float32 \<Rightarrow> bool" where
  "feq NaN y = False"
| "feq (Infty s) NaN = False"
| "feq (Infty s) (Infty t) = (s = t)"
| "feq (Infty s) (Fin t n k) = False"
| "feq (Fin s m e) NaN = False"
| "feq (Fin s m e) (Infty t) = False"
| "feq (Fin s m e) (Fin t n k) =
     (let E = min e k
      in signed s (m * 2 ^ nat (e - E)) = signed t (n * 2 ^ nat (k - E)))"

definition fge :: "float32 \<Rightarrow> float32 \<Rightarrow> bool" where
  "fge x y = (flt y x \<or> feq x y)"

text \<open>The conversion \<open>float32(i)\<close> of an \<open>int32\<close>.\<close>

definition of_int32 :: "int32 \<Rightarrow> float32" where
  "of_int32 i = round32 (sint i < 0) \<bar>sint i\<bar> 0"

text \<open>
  The values the format has: the datatype also holds triples that are no \<open>float32\<close>, with
  a mantissa or an exponent out of range or not in normal form.
\<close>

fun valid32 :: "float32 \<Rightarrow> bool" where
  "valid32 (Fin s m e) =
     (0 \<le> m \<and> m < 2 ^ 24 \<and> - 149 \<le> e \<and> e \<le> 104 \<and> (m < 2 ^ 23 \<longrightarrow> e = - 149))"
| "valid32 x = True"



section \<open>The perceptron\<close>

record Perceptron =
  weights :: "float32 list"
  bias :: float32

text \<open>
  Indexing a slice beyond its length is a run-time panic in Go. A method of the perceptron
  returns the perceptron as the call leaves it, next to its result or the panic.
\<close>

datatype panic = IndexOutOfRange

definition heaviside :: "float32 \<Rightarrow> int32" where
  "heaviside f = (if flt f fzero then 0 else 1)"

text \<open>
  The loop of \<open>Process\<close>: \<open>i\<close> is the index of the next input, \<open>acc\<close> the value
  of the source's \<open>sum\<close> so far.
\<close>

fun Process_loop :: "Perceptron \<Rightarrow> nat \<Rightarrow> int32 list \<Rightarrow> float32 \<Rightarrow> panic + float32" where
  "Process_loop p i [] acc = Inr acc"
| "Process_loop p i (input # rest) acc =
     (if i < length (weights p)
      then Process_loop p (Suc i) rest (fadd acc (fmul (of_int32 input) (weights p ! i)))
      else Inl IndexOutOfRange)"

definition Process :: "Perceptron \<Rightarrow> int32 list \<Rightarrow> Perceptron \<times> (panic + int32)" where
  "Process p inputs =
     (case Process_loop p 0 inputs (bias p) of
        Inl err \<Rightarrow> (p, Inl err)
      | Inr acc \<Rightarrow> (p, Inr (heaviside acc)))"

fun Adjust_loop ::
  "Perceptron \<Rightarrow> nat \<Rightarrow> int32 list \<Rightarrow> int32 \<Rightarrow> float32 \<Rightarrow> Perceptron \<times> (panic + unit)" where
  "Adjust_loop p i [] delta learningRate = (p, Inr ())"
| "Adjust_loop p i (input # rest) delta learningRate =
     (if i < length (weights p)
      then Adjust_loop
             (p\<lparr>weights := (weights p)
                   [i := fadd (weights p ! i)
                           (fmul (fmul (of_int32 input) (of_int32 delta)) learningRate)]\<rparr>)
             (Suc i) rest delta learningRate
      else (p, Inl IndexOutOfRange))"

definition Adjust ::
  "Perceptron \<Rightarrow> int32 list \<Rightarrow> int32 \<Rightarrow> float32 \<Rightarrow> Perceptron \<times> (panic + unit)" where
  "Adjust p inputs delta learningRate =
     (case Adjust_loop p 0 inputs delta learningRate of
        (p', Inl err) \<Rightarrow> (p', Inl err)
      | (p', Inr u) \<Rightarrow>
          (p'\<lparr>bias := fadd (bias p') (fmul (of_int32 delta) learningRate)\<rparr>, Inr ()))"

section \<open>The random source\<close>

text \<open>
  \<open>math/rand\<close> is a library of Go, not part of the program. Its \<open>Int31n(n)\<close> returns a
  non-negative number of the half-open interval \<open>[0, n)\<close>, for \<open>n > 0\<close>; the program calls
  it with the constants 11, 101 and 201 only. The generator is a parameter of the model:
  an arbitrary sequence of integers, of which the \<open>k\<close>-th call reduces the \<open>k\<close>-th to the
  interval, so that every number of \<open>[0, n)\<close> can be drawn and no other. \<open>used\<close> counts
  the draws made so far.
\<close>

record rng =
  draws :: "nat \<Rightarrow> int"
  used :: nat

definition Int31n :: "int \<Rightarrow> rng \<Rightarrow> int32 \<times> rng" where
  "Int31n n g = (word_of_int (draws g (used g) mod n), g\<lparr>used := Suc (used g)\<rparr>)"

section \<open>The separation line and the teacher\<close>

text \<open>The globals \<open>a\<close> and \<open>b\<close> of the source are parameters here.\<close>

definition f :: "int32 \<Rightarrow> int32 \<Rightarrow> int32 \<Rightarrow> int32" where
  "f a b x = a * x + b"

definition isAboveLine :: "int32 list \<Rightarrow> (int32 \<Rightarrow> int32) \<Rightarrow> panic + int32" where
  "isAboveLine point line =
     (case point of
        x # y # rest \<Rightarrow> Inr (if sint (line x) < sint y then 1 else 0)
      | _ \<Rightarrow> Inl IndexOutOfRange)"

text \<open>
  The composite literal \<open>[]int32{rand.Int31n(201) - 101, rand.Int31n(201) - 101}\<close> of
  \<open>train\<close> and of \<open>verify\<close>: two draws, left to right.
\<close>

definition random_point :: "rng \<Rightarrow> int32 list \<times> rng" where
  "random_point g =
     (let (x, g1) = Int31n 201 g;
          (y, g2) = Int31n 201 g1
      in ([x - 101, y - 101], g2))"

text \<open>One iteration of the loop of \<open>train\<close>.\<close>

definition train_step ::
  "int32 \<Rightarrow> int32 \<Rightarrow> Perceptron \<Rightarrow> float32 \<Rightarrow> rng \<Rightarrow> (Perceptron \<times> rng) \<times> (panic + unit)" where
  "train_step a b p rate g =
     (let (point, g') = random_point g in
      case Process p point of
        (p1, Inl err) \<Rightarrow> ((p1, g'), Inl err)
      | (p1, Inr actual) \<Rightarrow>
          (case isAboveLine point (f a b) of
             Inl err \<Rightarrow> ((p1, g'), Inl err)
           | Inr expected \<Rightarrow>
               (let delta = expected - actual in
                case Adjust p1 point delta rate of
                  (p2, Inl err) \<Rightarrow> ((p2, g'), Inl err)
                | (p2, Inr u) \<Rightarrow> ((p2, g'), Inr ()))))"

text \<open>
  The loop \<open>for i := 0; i < iters; i++\<close>. Go's \<open>int\<close> has 64 bits and \<open>i\<close> stays below
  \<open>iters\<close>, so the increment never wraps and the counters are integers.
\<close>

function train_loop ::
  "int32 \<Rightarrow> int32 \<Rightarrow> Perceptron \<Rightarrow> int \<Rightarrow> int \<Rightarrow> float32 \<Rightarrow> rng
     \<Rightarrow> (Perceptron \<times> rng) \<times> (panic + unit)" where
  "train_loop a b p i iters rate g =
     (if i < iters then
        (case train_step a b p rate g of
           ((p', g'), Inl err) \<Rightarrow> ((p', g'), Inl err)
         | ((p', g'), Inr u) \<Rightarrow> train_loop a b p' (i + 1) iters rate g')
      else ((p, g), Inr ()))"
  by pat_completeness auto
termination
  by (relation "measure (\<lambda>(a, b, p, i, iters, rate, g). nat (iters - i))") auto

declare train_loop.simps [simp del]

definition train ::
  "int32 \<Rightarrow> int32 \<Rightarrow> Perceptron \<Rightarrow> int \<Rightarrow> float32 \<Rightarrow> rng
     \<Rightarrow> (Perceptron \<times> rng) \<times> (panic + unit)" where
  "train a b p iters rate g = train_loop a b p 0 iters rate g"

section \<open>Verification\<close>

text \<open>
  The canvas belongs to the package \<open>draw\<close>, outside the program: the model keeps the
  calls made on it, in order.
\<close>

datatype draw_call = DrawPoint int32 int32 bool | DrawLinearFunction int32 int32 | Save

function verify_loop ::
  "int32 \<Rightarrow> int32 \<Rightarrow> Perceptron \<Rightarrow> int \<Rightarrow> int32 \<Rightarrow> draw_call list \<Rightarrow> rng
     \<Rightarrow> (Perceptron \<times> rng \<times> draw_call list) \<times> (panic + int32)" where
  "verify_loop a b p i correctAnswers c g =
     (if i < 100 then
        (let (point, g') = random_point g in
         case Process p point of
           (p1, Inl err) \<Rightarrow> ((p1, g', c), Inl err)
         | (p1, Inr result) \<Rightarrow>
             (case isAboveLine point (f a b) of
                Inl err \<Rightarrow> ((p1, g', c), Inl err)
              | Inr expected \<Rightarrow>
                  verify_loop a b p1 (i + 1)
                    (if result = expected then correctAnswers + 1 else correctAnswers)
                    (c @ [DrawPoint (point ! 0) (point ! 1) (result = 1)]) g'))
      else ((p, g, c), Inr correctAnswers))"
  by pat_completeness auto
termination
  by (relation "measure (\<lambda>(a, b, p, i, correctAnswers, c, g). nat (100 - i))") auto

declare verify_loop.simps [simp del]

definition verify ::
  "int32 \<Rightarrow> int32 \<Rightarrow> Perceptron \<Rightarrow> rng
     \<Rightarrow> (Perceptron \<times> rng \<times> draw_call list) \<times> (panic + int32)" where
  "verify a b p g =
     (case verify_loop a b p 0 0 [] g of
        (st, Inl err) \<Rightarrow> (st, Inl err)
      | ((p', g', c), Inr correctAnswers) \<Rightarrow>
          ((p', g', c @ [DrawLinearFunction a b, Save]), Inr correctAnswers))"

section \<open>Setting up the line\<close>

text \<open>
  The two draws at the head of \<open>main\<close>: \<open>a = rand.Int31n(11) - 6\<close> and
  \<open>b = rand.Int31n(101) - 51\<close>. The seed is the generator passed in.
\<close>

definition main_line :: "rng \<Rightarrow> (int32 \<times> int32) \<times> rng" where
  "main_line g =
     (let (r1, g1) = Int31n 11 g;
          (r2, g2) = Int31n 101 g1
      in ((r1 - 6, r2 - 51), g2))"

section \<open>The notions of the specification\<close>

text \<open>
  The weighted sum \<open>bias + \<Sum> inputs[i] * weights[i]\<close>, accumulated from the bias on, left to
  right, in \<open>float32\<close>.
\<close>

definition weighted_sum :: "float32 \<Rightarrow> int32 list \<Rightarrow> float32 list \<Rightarrow> float32" where
  "weighted_sum b inputs ws =
     foldl (\<lambda>acc (input, w). fadd acc (fmul (of_int32 input) w)) b (zip inputs ws)"

text \<open>The delta rule for one weight: \<open>w + input * delta * learningRate\<close>.\<close>

definition update_weight :: "int32 \<Rightarrow> float32 \<Rightarrow> float32 \<Rightarrow> int32 \<Rightarrow> float32" where
  "update_weight delta learningRate w input =
     fadd w (fmul (fmul (of_int32 input) (of_int32 delta)) learningRate)"


text \<open>
  The points of the first \<open>n\<close> trials, and the number of them on which the perceptron's
  answer equals the label of \<open>isAboveLine\<close>.
\<close>

fun sample_points :: "nat \<Rightarrow> rng \<Rightarrow> int32 list list" where
  "sample_points 0 g = []"
| "sample_points (Suc n) g = fst (random_point g) # sample_points n (snd (random_point g))"

definition agrees :: "int32 \<Rightarrow> int32 \<Rightarrow> Perceptron \<Rightarrow> int32 list \<Rightarrow> bool" where
  "agrees a b p point =
     (case (snd (Process p point), isAboveLine point (f a b)) of
        (Inr result, Inr expected) \<Rightarrow> result = expected
      | _ \<Rightarrow> False)"

definition correct_count :: "int32 \<Rightarrow> int32 \<Rightarrow> Perceptron \<Rightarrow> int32 list list \<Rightarrow> nat" where
  "correct_count a b p points = length (filter (agrees a b p) points)"

section \<open>Evaluating the arithmetic\<close>

lemma bits_0: "bits 0 = 0"
  by (simp add: bits.simps)

lemma bits_1: "bits 1 = 1"
  by (simp add: bits.simps [of 1] bits_0)

lemma bits_numeral: "bits (numeral k) = Suc (bits (numeral k div 2))"
  by (subst bits.simps) simp

lemmas bits_eval = bits_0 bits_1 bits_numeral

lemmas float_eval =
  bits_eval round32_def of_int32_def signed_def fzero_def Let_def
  weighted_sum_def update_weight_def heaviside_def fge_def

section \<open>Rounding\<close>

lemma bits_pos: "0 < m \<Longrightarrow> bits m = Suc (bits (m div 2))"
  by (subst bits.simps) simp





lemma bits_upper: "m < 2 ^ bits m"
proof (induction m rule: bits.induct)
  case (1 n)
  show ?case
  proof (cases "n \<le> 0")
    case True
    then show ?thesis by (simp add: bits.simps [of n])
  next
    case False
    then have "n div 2 < 2 ^ bits (n div 2)" by (rule 1)
    then have "n < 2 * 2 ^ bits (n div 2)" by linarith
    then show ?thesis using False by (simp add: bits.simps [of n])
  qed
qed

lemma bits_lower: "0 < m \<Longrightarrow> 2 ^ (bits m - 1) \<le> m"
proof (induction m rule: bits.induct)
  case (1 n)
  have bn: "bits n = Suc (bits (n div 2))" using 1(2) by (rule bits_pos)
  show ?case
  proof (cases "0 < n div 2")
    case False
    then have "n div 2 = 0" using 1(2) by simp
    then show ?thesis using bn 1(2) by (simp add: bits_0)
  next
    case True
    have "2 ^ (bits (n div 2) - 1) \<le> n div 2" using 1(1) 1(2) True by simp
    moreover have "bits (n div 2) = Suc (bits (n div 2) - 1)"
      using bits_pos [OF True] by simp
    ultimately have "2 ^ bits (n div 2) \<le> 2 * (n div 2)"
      by (metis mult_le_cancel_left_pos power_Suc zero_less_numeral)
    then show ?thesis using bn by simp
  qed
qed

lemma div_pow_less:
  fixes M :: int
  assumes "M < 2 ^ k" "k \<le> j + sh"
  shows "M div 2 ^ sh < 2 ^ j"
proof -
  have "(2::int) ^ k \<le> 2 ^ (j + sh)" using assms(2) by (simp add: power_increasing)
  then have lt: "M < 2 ^ j * 2 ^ sh" using assms(1) by (simp add: power_add)
  show ?thesis
  proof (rule ccontr)
    assume "\<not> M div 2 ^ sh < 2 ^ j"
    then have "2 ^ j \<le> M div 2 ^ sh" by simp
    then have a: "2 ^ j * 2 ^ sh \<le> (M div 2 ^ sh) * 2 ^ sh"
      by (rule mult_right_mono) simp
    have "0 \<le> M mod 2 ^ sh" by simp
    then have b: "(M div 2 ^ sh) * 2 ^ sh \<le> M"
      using div_mult_mod_eq [of M "2 ^ sh"] by linarith
    show False using a b lt by linarith
  qed
qed

lemma div_pow_ge:
  fixes M :: int
  assumes "2 ^ (j + sh) \<le> M"
  shows "2 ^ j \<le> M div 2 ^ sh"
proof -
  have "2 ^ j * 2 ^ sh \<le> M" using assms by (simp add: power_add)
  then have "(2 ^ j * 2 ^ sh) div 2 ^ sh \<le> M div 2 ^ sh"
    by (rule zdiv_mono1) simp
  then show ?thesis by simp
qed

lemma mult_pow_less:
  fixes M :: int
  assumes "M < 2 ^ k" "k + j \<le> n"
  shows "M * 2 ^ j < 2 ^ n"
proof -
  have "M * 2 ^ j < 2 ^ k * 2 ^ j" using assms(1) by simp
  also have "\<dots> = 2 ^ (k + j)" by (simp add: power_add)
  also have "\<dots> \<le> 2 ^ n" using assms(2) by (simp add: power_increasing)
  finally show ?thesis .
qed

lemma mult_pow_ge:
  fixes M :: int
  assumes "2 ^ k \<le> M" "n \<le> k + j"
  shows "2 ^ n \<le> M * 2 ^ j"
proof -
  have "(2::int) ^ n \<le> 2 ^ (k + j)" using assms(2) by (simp add: power_increasing)
  also have "\<dots> = 2 ^ k * 2 ^ j" by (simp add: power_add)
  also have "\<dots> \<le> M * 2 ^ j" using assms(1) by simp
  finally show ?thesis .
qed

lemma round32_valid32: "0 \<le> M \<Longrightarrow> valid32 (round32 s M E)"
proof (cases "M = 0")
  case True
  then show ?thesis by (simp add: round32_def)
next
  case False
  assume "0 \<le> M"
  then have pos: "0 < M" using False by simp
  define k where "k = bits M"
  have hi: "M < 2 ^ k" unfolding k_def by (rule bits_upper)
  have lo: "2 ^ (k - 1) \<le> M" unfolding k_def by (rule bits_lower [OF pos])
  have k1: "1 \<le> k" using bits_pos [OF pos] k_def by simp
  define e where "e = max (- 149) (int k + E - 24)"
  have e149: "- 149 \<le> e" by (simp add: e_def)
  show ?thesis
  proof (cases "e \<le> E")
    case True
    have "k + nat (E - e) \<le> 24" using True unfolding e_def by arith
    then have m: "M * 2 ^ nat (E - e) < 2 ^ 24"
      by (rule mult_pow_less [OF hi])
    have n: "M * 2 ^ nat (E - e) < 2 ^ 23 \<longrightarrow> e = - 149"
    proof (cases "e = - 149")
      case True
      then show ?thesis by simp
    next
      case False
      then have "e = int k + E - 24" unfolding e_def by arith
      then have "23 \<le> k - 1 + nat (E - e)" using True k1 by arith
      then have "2 ^ 23 \<le> M * 2 ^ nat (E - e)"
        by (rule mult_pow_ge [OF lo])
      then show ?thesis by simp
    qed
    have "0 \<le> M * 2 ^ nat (E - e)" using pos by simp
    then show ?thesis
      using True m n e149 False
      by (simp add: round32_def Let_def k_def [symmetric] e_def [symmetric])
  next
    case ee: False
    define sh where "sh = nat (e - E)"
    define q where "q = M div 2 ^ sh"
    define r where "r = M mod 2 ^ sh"
    define q' where "q' = (if 2 ^ (sh - 1) < r \<or> (r = 2 ^ (sh - 1) \<and> odd q) then q + 1 else q)"
    have q0: "0 \<le> q" using pos by (simp add: q_def pos_imp_zdiv_nonneg_iff)
    have "k \<le> 24 + sh" using ee unfolding e_def sh_def by arith
    then have q24: "q < 2 ^ 24"
      unfolding q_def by (rule div_pow_less [OF hi])
    have qsub: "q < 2 ^ 23" if "e = - 149" "- 149 \<noteq> int k + E - 24"
    proof -
      have "k \<le> 23 + sh" using ee that unfolding e_def sh_def by arith
      then show ?thesis unfolding q_def by (rule div_pow_less [OF hi])
    qed
    have qnorm: "2 ^ 23 \<le> q" if "e = int k + E - 24"
    proof -
      have "23 + sh = k - 1" using that ee k1 unfolding sh_def by arith
      then show ?thesis unfolding q_def using lo by (intro div_pow_ge) simp
    qed
    have q'0: "0 \<le> q'" "q' \<le> 2 ^ 24" "q \<le> q'" "q' \<le> q + 1"
      using q0 q24 by (simp_all add: q'_def)
    have res: "round32 s M E =
      (if 104 < (if q' = 2 ^ 24 then e + 1 else e) then Infty s
       else Fin s (if q' = 2 ^ 24 then 2 ^ 23 else q') (if q' = 2 ^ 24 then e + 1 else e))"
      unfolding round32_def Let_def q'_def q_def r_def sh_def e_def k_def
      using False ee [unfolded e_def k_def] by (simp only: if_False)
    show ?thesis
    proof (cases "e = int k + E - 24")
      case True
      then show ?thesis using res qnorm [OF True] q'0 e149 by auto
    next
      case False
      then have e: "e = - 149" "- 149 \<noteq> int k + E - 24"
        unfolding e_def by arith+
      have "q' \<le> 2 ^ 23" using qsub [OF e] q'0 by simp
      then show ?thesis using res q'0 e by auto
    qed
  qed
qed

text \<open>The arithmetic stays within the format.\<close>

lemma of_int32_valid: "valid32 (of_int32 i)"
  by (simp add: of_int32_def round32_valid32)

lemma fadd_valid: "valid32 (fadd x y)"
  by (cases x; cases y) (simp_all add: Let_def round32_valid32)

lemma fmul_valid: "valid32 x \<Longrightarrow> valid32 y \<Longrightarrow> valid32 (fmul x y)"
  by (cases x; cases y) (simp_all add: round32_valid32)












section \<open>Process\<close>

lemma Process_loop_sum:
  "i + length inputs \<le> length (weights p) \<Longrightarrow>
   Process_loop p i inputs acc = Inr (weighted_sum acc inputs (drop i (weights p)))"
proof (induction inputs arbitrary: i acc)
  case Nil
  then show ?case by (simp add: weighted_sum_def)
next
  case (Cons input rest)
  then have lt: "i < length (weights p)" by simp
  have dr: "drop i (weights p) = weights p ! i # drop (Suc i) (weights p)"
    using lt by (simp add: Cons_nth_drop_Suc)
  have "Process_loop p (Suc i) rest (fadd acc (fmul (of_int32 input) (weights p ! i))) =
        Inr (weighted_sum (fadd acc (fmul (of_int32 input) (weights p ! i))) rest
               (drop (Suc i) (weights p)))"
    using Cons.prems by (intro Cons.IH) simp
  then show ?case using lt dr by (simp add: weighted_sum_def)
qed

lemma Process_loop_panic:
  "length (weights p) - i < length inputs \<Longrightarrow>
   Process_loop p i inputs acc = Inl IndexOutOfRange"
proof (induction inputs arbitrary: i acc)
  case Nil
  then show ?case by simp
next
  case (Cons input rest)
  show ?case
  proof (cases "i < length (weights p)")
    case True
    then have "length (weights p) - Suc i < length rest" using Cons.prems by simp
    then show ?thesis using True Cons.IH by simp
  next
    case False
    then show ?thesis by simp
  qed
qed

lemma Process_fits:
  "length inputs \<le> length (weights p) \<Longrightarrow>
   Process p inputs = (p, Inr (heaviside (weighted_sum (bias p) inputs (weights p))))"
  using Process_loop_sum [of 0 inputs p "bias p"] by (simp add: Process_def)

lemma Process_too_long:
  "length (weights p) < length inputs \<Longrightarrow> Process p inputs = (p, Inl IndexOutOfRange)"
  using Process_loop_panic [of p 0 inputs "bias p"] by (simp add: Process_def)

lemma flt_zero_iff: "x \<noteq> NaN \<Longrightarrow> flt x fzero = (\<not> fge x fzero)"
  by (cases x) (auto simp: fzero_def fge_def signed_def Let_def mult_less_0_iff zero_less_mult_iff)

lemma feq_zero_not_flt: "feq x fzero \<Longrightarrow> \<not> flt x fzero"
  by (cases x) (auto simp: fzero_def signed_def Let_def)

lemma heaviside_cases: "heaviside x = 0 \<or> heaviside x = 1"
  by (simp add: heaviside_def)


text \<open>
  C1, as the code has it. For an input vector as long as the weight vector, \<open>Process\<close>
  returns 0 when the weighted sum is below zero and 1 otherwise, and nothing else. Unless
  the sum is a NaN that is: 1 when the sum is at least zero and 0 otherwise. A NaN sum is
  not below zero, so it gives 1.
\<close>

theorem Process_step_of_sum:
  "length inputs = length (weights p) \<Longrightarrow>
   (let s = weighted_sum (bias p) inputs (weights p) in
      snd (Process p inputs) = Inr (if flt s fzero then 0 else 1) \<and>
      (s \<noteq> NaN \<longrightarrow> snd (Process p inputs) = Inr (if fge s fzero then 1 else 0)) \<and>
      (s = NaN \<longrightarrow> snd (Process p inputs) = Inr 1))"
  by (auto simp: Process_fits heaviside_def Let_def flt_zero_iff)

text \<open>
  The weights \<open>0.1\<close> and \<open>-0.5\<close>, the bias \<open>1\<close> and the inputs \<open>3\<close> and \<open>7\<close>: the sum is
  \<open>-2.2\<close> in \<open>float32\<close>, below zero.
\<close>

theorem Process_step_of_sum_witness:
  "length [3, 7 :: int32] =
     length (weights \<lparr>weights = [Fin False 13421773 (-27), Fin True 8388608 (-24)],
                      bias = Fin False 8388608 (-23)\<rparr>) \<and>
   weighted_sum (Fin False 8388608 (-23)) [3, 7]
     [Fin False 13421773 (-27), Fin True 8388608 (-24)] = Fin True 9227469 (-22) \<and>
   snd (Process \<lparr>weights = [Fin False 13421773 (-27), Fin True 8388608 (-24)],
                  bias = Fin False 8388608 (-23)\<rparr> [3, 7]) = Inr 0"
proof -
  have s: "weighted_sum (Fin False 8388608 (-23)) [3, 7]
     [Fin False 13421773 (-27), Fin True 8388608 (-24)] = Fin True 9227469 (-22)"
    by (simp add: float_eval)
  show ?thesis
    using Process_step_of_sum
      [where inputs = "[3, 7]" and p = "\<lparr>weights = [Fin False 13421773 (-27), Fin True 8388608 (-24)],
                      bias = Fin False 8388608 (-23)\<rparr>"]
    by (simp add: s Let_def signed_def fzero_def)
qed

text \<open>
  C1 as stated fails where the sum is a NaN: with the bias a NaN the sum is a NaN, which is
  not at least zero, and \<open>Process\<close> returns 1.
\<close>

theorem Process_sum_ge_zero_counterexample:
  "length [0 :: int32] = length (weights \<lparr>weights = [fzero], bias = NaN\<rparr>) \<and>
   \<not> fge (weighted_sum (bias \<lparr>weights = [fzero], bias = NaN\<rparr>) [0]
            (weights \<lparr>weights = [fzero], bias = NaN\<rparr>)) fzero \<and>
   snd (Process \<lparr>weights = [fzero], bias = NaN\<rparr> [0]) = Inr 1"
  by (simp add: Process_def heaviside_def weighted_sum_def fge_def fzero_def)

text \<open>
  C8. \<open>Process\<close> returns the perceptron as it received it, and its result depends on the
  weights, the bias and the inputs only.
\<close>

theorem Process_pure:
  "fst (Process p inputs) = p \<and>
   (weights q = weights p \<and> bias q = bias p \<longrightarrow>
      snd (Process q inputs) = snd (Process p inputs))"
proof
  show "fst (Process p inputs) = p"
    by (simp add: Process_def split: sum.split)
  show "weights q = weights p \<and> bias q = bias p \<longrightarrow>
      snd (Process q inputs) = snd (Process p inputs)"
  proof
    assume "weights q = weights p \<and> bias q = bias p"
    then have "q = p" by simp
    then show "snd (Process q inputs) = snd (Process p inputs)" by simp
  qed
qed

theorem Process_pure_witness:
  "fst (Process \<lparr>weights = [fzero, fzero], bias = fzero\<rparr> [1, 2]) =
     \<lparr>weights = [fzero, fzero], bias = fzero\<rparr> \<and>
   weights (\<lparr>weights = [fzero, fzero], bias = fzero\<rparr>) =
     weights (\<lparr>weights = [fzero, fzero], bias = fzero\<rparr>) \<and>
   snd (Process \<lparr>weights = [fzero, fzero], bias = fzero\<rparr> [1, 2]) = Inr 1"
  using Process_pure
    [where inputs = "[1, 2]" and p = "\<lparr>weights = [fzero, fzero], bias = fzero\<rparr>"
       and q = "\<lparr>weights = [fzero, fzero], bias = fzero\<rparr>"]
  by (simp add: Process_def float_eval)

section \<open>Adjust\<close>

lemma Adjust_loop_frame:
  "length (weights (fst (Adjust_loop p i inputs delta r))) = length (weights p) \<and>
   bias (fst (Adjust_loop p i inputs delta r)) = bias p"
  by (induction inputs arbitrary: p i) auto

lemma Adjust_loop_result:
  "snd (Adjust_loop p i inputs delta r) =
     (if inputs = [] \<or> i + length inputs \<le> length (weights p) then Inr ()
      else Inl IndexOutOfRange)"
  by (induction inputs arbitrary: p i) auto

lemma Adjust_loop_nth:
  "j < length (weights p) \<Longrightarrow>
   weights (fst (Adjust_loop p i inputs delta r)) ! j =
     (if i \<le> j \<and> j < i + length inputs
      then update_weight delta r (weights p ! j) (inputs ! (j - i))
      else weights p ! j)"
proof (induction inputs arbitrary: p i)
  case Nil
  then show ?case by auto
next
  case (Cons input rest)
  show ?case
  proof (cases "i < length (weights p)")
    case False
    then show ?thesis using Cons.prems by simp
  next
    case True
    let ?p1 = "p\<lparr>weights := (weights p)[i := update_weight delta r (weights p ! i) input]\<rparr>"
    have step: "Adjust_loop p i (input # rest) delta r = Adjust_loop ?p1 (Suc i) rest delta r"
      using True by (simp add: update_weight_def)
    have j1: "j < length (weights ?p1)" using Cons.prems by simp
    note ih = Cons.IH [OF j1, of "Suc i"]
    show ?thesis
    proof (cases "j = i")
      case True
      then show ?thesis using ih step Cons.prems by simp
    next
      case False
      then show ?thesis using ih step Cons.prems
        by (auto simp: nth_Cons' )
    qed
  qed
qed

lemma Adjust_fits:
  assumes "length inputs \<le> length (weights p)"
  shows "snd (Adjust p inputs delta r) = Inr ()"
    and "length (weights (fst (Adjust p inputs delta r))) = length (weights p)"
    and "bias (fst (Adjust p inputs delta r)) = fadd (bias p) (fmul (of_int32 delta) r)"
    and "j < length (weights p) \<Longrightarrow> weights (fst (Adjust p inputs delta r)) ! j =
           (if j < length inputs then update_weight delta r (weights p ! j) (inputs ! j)
            else weights p ! j)"
proof -
  obtain p' res where al: "Adjust_loop p 0 inputs delta r = (p', res)" by (cases "Adjust_loop p 0 inputs delta r")
  have res: "res = Inr ()"
    using Adjust_loop_result [of p 0 inputs delta r] assms al by simp
  have fr: "length (weights p') = length (weights p)" "bias p' = bias p"
    using Adjust_loop_frame [of p 0 inputs delta r] al by simp_all
  have A: "Adjust p inputs delta r = (p'\<lparr>bias := fadd (bias p') (fmul (of_int32 delta) r)\<rparr>, Inr ())"
    using al res by (simp add: Adjust_def)
  show "snd (Adjust p inputs delta r) = Inr ()" using A by simp
  show "length (weights (fst (Adjust p inputs delta r))) = length (weights p)" using A fr by simp
  show "bias (fst (Adjust p inputs delta r)) = fadd (bias p) (fmul (of_int32 delta) r)"
    using A fr by simp
  show "weights (fst (Adjust p inputs delta r)) ! j =
           (if j < length inputs then update_weight delta r (weights p ! j) (inputs ! j)
            else weights p ! j)" if "j < length (weights p)"
    using Adjust_loop_nth [OF that, of 0 inputs delta r] al A by simp
qed

lemma Adjust_too_long:
  assumes "length (weights p) < length inputs"
  shows "snd (Adjust p inputs delta r) = Inl IndexOutOfRange"
    and "bias (fst (Adjust p inputs delta r)) = bias p"
    and "j < length (weights p) \<Longrightarrow> weights (fst (Adjust p inputs delta r)) ! j =
           update_weight delta r (weights p ! j) (inputs ! j)"
proof -
  obtain p' res where al: "Adjust_loop p 0 inputs delta r = (p', res)" by (cases "Adjust_loop p 0 inputs delta r")
  have res: "res = Inl IndexOutOfRange"
    using Adjust_loop_result [of p 0 inputs delta r] assms al by auto
  have A: "Adjust p inputs delta r = (p', Inl IndexOutOfRange)"
    using al res by (simp add: Adjust_def)
  show "snd (Adjust p inputs delta r) = Inl IndexOutOfRange" using A by simp
  show "bias (fst (Adjust p inputs delta r)) = bias p"
    using Adjust_loop_frame [of p 0 inputs delta r] al A by simp
  show "weights (fst (Adjust p inputs delta r)) ! j =
           update_weight delta r (weights p ! j) (inputs ! j)" if "j < length (weights p)"
    using Adjust_loop_nth [OF that, of 0 inputs delta r] al A assms that by simp
qed


text \<open>
  C2. For an input vector as long as the weight vector, \<open>Adjust\<close> returns normally, keeps
  the number of weights, sets each weight to the old weight plus
  \<open>inputs[i] * delta * learningRate\<close> and the bias to the old bias plus
  \<open>delta * learningRate\<close>, each as \<open>float32\<close> computes it, the products left to right.
\<close>

theorem Adjust_linear_update:
  "length inputs = length (weights p) \<Longrightarrow>
   (let p' = fst (Adjust p inputs delta r) in
      snd (Adjust p inputs delta r) = Inr () \<and>
      length (weights p') = length (weights p) \<and>
      (\<forall>i < length inputs.
         weights p' ! i =
           fadd (weights p ! i) (fmul (fmul (of_int32 (inputs ! i)) (of_int32 delta)) r)) \<and>
      bias p' = fadd (bias p) (fmul (of_int32 delta) r))"
  using Adjust_fits [where inputs = inputs and p = p and delta = delta and r = r]
  by (simp add: Let_def update_weight_def)

text \<open>
  The weights \<open>0.5\<close> and \<open>-0.5\<close>, the bias \<open>1\<close>, the point \<open>(3, -7)\<close>, \<open>delta = -1\<close> and the
  rate \<open>0.1\<close>: the new weights are \<open>0.5 - 0.3\<close> and \<open>-0.5 + 0.7\<close>, the new bias \<open>1 - 0.1\<close>,
  rounded as \<open>float32\<close> rounds them.
\<close>

theorem Adjust_linear_update_witness:
  "length [3, -7 :: int32] =
     length (weights \<lparr>weights = [Fin False 8388608 (-24), Fin True 8388608 (-24)],
                      bias = Fin False 8388608 (-23)\<rparr>) \<and>
   Adjust \<lparr>weights = [Fin False 8388608 (-24), Fin True 8388608 (-24)],
           bias = Fin False 8388608 (-23)\<rparr> [3, -7] (-1) (Fin False 13421773 (-27)) =
     (\<lparr>weights = [Fin False 13421772 (-26), Fin False 13421772 (-26)],
       bias = Fin False 15099494 (-24)\<rparr>, Inr ())"
proof -
  have a: "Adjust \<lparr>weights = [Fin False 8388608 (-24), Fin True 8388608 (-24)],
           bias = Fin False 8388608 (-23)\<rparr> [3, -7] (-1) (Fin False 13421773 (-27)) =
     (\<lparr>weights = [Fin False 13421772 (-26), Fin False 13421772 (-26)],
       bias = Fin False 15099494 (-24)\<rparr>, Inr ())"
    by (simp add: Adjust_def float_eval)
  show ?thesis
    using Adjust_linear_update
      [where inputs = "[3, -7]"
         and p = "\<lparr>weights = [Fin False 8388608 (-24), Fin True 8388608 (-24)],
                   bias = Fin False 8388608 (-23)\<rparr>"
         and delta = "-1" and r = "Fin False 13421773 (-27)"]
    by (simp add: a)
qed




section \<open>Vectors of the wrong length\<close>

lemma weighted_sum_take:
  "weighted_sum b inputs (take (length inputs) ws) = weighted_sum b inputs ws"
proof -
  have "zip inputs (take (length inputs) ws) = zip inputs ws"
  proof (induction inputs arbitrary: ws)
    case Nil
    then show ?case by simp
  next
    case (Cons input rest)
    then show ?case by (cases ws) simp_all
  qed
  then show ?thesis by (simp add: weighted_sum_def)
qed

text \<open>
  C7, as the code has it. Neither method compares the lengths. On an input vector shorter
  than the weight vector both return normally: \<open>Process\<close> sums over the first weights only,
  \<open>Adjust\<close> updates the first weights and the bias and leaves the other weights as they
  are. On a longer input vector both stop with the index-out-of-range panic of the slice
  access; \<open>Adjust\<close> has by then updated every weight, and not the bias.
\<close>

theorem length_mismatch:
  "(length inputs < length (weights p) \<longrightarrow>
      Process p inputs =
        (p, Inr (heaviside
                   (weighted_sum (bias p) inputs (take (length inputs) (weights p))))) \<and>
      snd (Adjust p inputs delta r) = Inr () \<and>
      bias (fst (Adjust p inputs delta r)) = fadd (bias p) (fmul (of_int32 delta) r) \<and>
      (\<forall>j. j < length inputs \<longrightarrow>
         weights (fst (Adjust p inputs delta r)) ! j =
           update_weight delta r (weights p ! j) (inputs ! j)) \<and>
      (\<forall>j. length inputs \<le> j \<and> j < length (weights p) \<longrightarrow>
         weights (fst (Adjust p inputs delta r)) ! j = weights p ! j)) \<and>
   (length (weights p) < length inputs \<longrightarrow>
      Process p inputs = (p, Inl IndexOutOfRange) \<and>
      snd (Adjust p inputs delta r) = Inl IndexOutOfRange \<and>
      bias (fst (Adjust p inputs delta r)) = bias p \<and>
      (\<forall>j. j < length (weights p) \<longrightarrow>
         weights (fst (Adjust p inputs delta r)) ! j =
           update_weight delta r (weights p ! j) (inputs ! j)))"
proof (intro conjI impI)
  assume short: "length inputs < length (weights p)"
  then have le: "length inputs \<le> length (weights p)" by simp
  show "Process p inputs =
        (p, Inr (heaviside
                   (weighted_sum (bias p) inputs (take (length inputs) (weights p)))))"
    using Process_fits [OF le] by (simp add: weighted_sum_take)
  show "snd (Adjust p inputs delta r) = Inr ()"
    by (rule Adjust_fits(1) [OF le])
  show "bias (fst (Adjust p inputs delta r)) = fadd (bias p) (fmul (of_int32 delta) r)"
    by (rule Adjust_fits(3) [OF le])
  show "\<forall>j. j < length inputs \<longrightarrow>
         weights (fst (Adjust p inputs delta r)) ! j =
           update_weight delta r (weights p ! j) (inputs ! j)"
    using Adjust_fits(4) [OF le, of _ delta r] short by simp
  show "\<forall>j. length inputs \<le> j \<and> j < length (weights p) \<longrightarrow>
         weights (fst (Adjust p inputs delta r)) ! j = weights p ! j"
    using Adjust_fits(4) [OF le, of _ delta r] by simp
next
  assume long: "length (weights p) < length inputs"
  show "Process p inputs = (p, Inl IndexOutOfRange)"
    by (rule Process_too_long [OF long])
  show "snd (Adjust p inputs delta r) = Inl IndexOutOfRange"
    by (rule Adjust_too_long(1) [OF long])
  show "bias (fst (Adjust p inputs delta r)) = bias p"
    by (rule Adjust_too_long(2) [OF long])
  show "\<forall>j. j < length (weights p) \<longrightarrow>
         weights (fst (Adjust p inputs delta r)) ! j =
           update_weight delta r (weights p ! j) (inputs ! j)"
    using Adjust_too_long(3) [OF long, of _ delta r] by simp
qed

text \<open>
  The weights \<open>0.5\<close> and \<open>-0.5\<close> and the bias \<open>1\<close>, with \<open>delta = -1\<close> and the rate \<open>0.1\<close>:
  on the one input \<open>3\<close> the second weight is ignored by \<open>Process\<close> and kept by \<open>Adjust\<close>;
  on the three inputs \<open>3, -7, 1\<close> both panic, \<open>Adjust\<close> with both weights updated.
\<close>

theorem length_mismatch_witness:
  "length [3 :: int32] <
     length (weights \<lparr>weights = [Fin False 8388608 (-24), Fin True 8388608 (-24)],
                      bias = Fin False 8388608 (-23)\<rparr>) \<and>
   Process \<lparr>weights = [Fin False 8388608 (-24), Fin True 8388608 (-24)],
            bias = Fin False 8388608 (-23)\<rparr> [3] =
     (\<lparr>weights = [Fin False 8388608 (-24), Fin True 8388608 (-24)],
       bias = Fin False 8388608 (-23)\<rparr>, Inr 1) \<and>
   Adjust \<lparr>weights = [Fin False 8388608 (-24), Fin True 8388608 (-24)],
           bias = Fin False 8388608 (-23)\<rparr> [3] (-1) (Fin False 13421773 (-27)) =
     (\<lparr>weights = [Fin False 13421772 (-26), Fin True 8388608 (-24)],
       bias = Fin False 15099494 (-24)\<rparr>, Inr ()) \<and>
   length (weights \<lparr>weights = [Fin False 8388608 (-24), Fin True 8388608 (-24)],
                    bias = Fin False 8388608 (-23)\<rparr>) < length [3, -7, 1 :: int32] \<and>
   Process \<lparr>weights = [Fin False 8388608 (-24), Fin True 8388608 (-24)],
            bias = Fin False 8388608 (-23)\<rparr> [3, -7, 1] =
     (\<lparr>weights = [Fin False 8388608 (-24), Fin True 8388608 (-24)],
       bias = Fin False 8388608 (-23)\<rparr>, Inl IndexOutOfRange) \<and>
   Adjust \<lparr>weights = [Fin False 8388608 (-24), Fin True 8388608 (-24)],
           bias = Fin False 8388608 (-23)\<rparr> [3, -7, 1] (-1) (Fin False 13421773 (-27)) =
     (\<lparr>weights = [Fin False 13421772 (-26), Fin False 13421772 (-26)],
       bias = Fin False 8388608 (-23)\<rparr>, Inl IndexOutOfRange)"
proof -
  let ?p = "\<lparr>weights = [Fin False 8388608 (-24), Fin True 8388608 (-24)],
            bias = Fin False 8388608 (-23)\<rparr>"
  have a1: "Adjust ?p [3] (-1) (Fin False 13421773 (-27)) =
     (\<lparr>weights = [Fin False 13421772 (-26), Fin True 8388608 (-24)],
       bias = Fin False 15099494 (-24)\<rparr>, Inr ())"
    by (simp add: Adjust_def float_eval)
  have a2: "Adjust ?p [3, -7, 1] (-1) (Fin False 13421773 (-27)) =
     (\<lparr>weights = [Fin False 13421772 (-26), Fin False 13421772 (-26)],
       bias = Fin False 8388608 (-23)\<rparr>, Inl IndexOutOfRange)"
    by (simp add: Adjust_def float_eval)
  have s: "weighted_sum (Fin False 8388608 (-23)) [3] [Fin False 8388608 (-24)] =
           Fin False 10485760 (-22)"
    by (simp add: float_eval)
  show ?thesis
    using length_mismatch
        [where inputs = "[3]" and p = ?p and delta = "-1" and r = "Fin False 13421773 (-27)"]
      length_mismatch
        [where inputs = "[3, -7, 1]" and p = ?p and delta = "-1"
           and r = "Fin False 13421773 (-27)"]
    by (simp add: a1 a2 s) (simp add: heaviside_def fzero_def signed_def)
qed

text \<open>
  C7 as stated fails: on the one input \<open>3\<close> and two weights nothing is reported, \<open>Process\<close>
  answers and \<open>Adjust\<close> returns.
\<close>

theorem length_mismatch_counterexample:
  "length [3 :: int32] \<noteq>
     length (weights \<lparr>weights = [Fin False 8388608 (-24), Fin True 8388608 (-24)],
                      bias = Fin False 8388608 (-23)\<rparr>) \<and>
   snd (Process \<lparr>weights = [Fin False 8388608 (-24), Fin True 8388608 (-24)],
                 bias = Fin False 8388608 (-23)\<rparr> [3]) = Inr 1 \<and>
   snd (Adjust \<lparr>weights = [Fin False 8388608 (-24), Fin True 8388608 (-24)],
                bias = Fin False 8388608 (-23)\<rparr> [3] (-1) (Fin False 13421773 (-27))) =
     Inr ()"
  by (simp add: Adjust_def Process_def float_eval)

section \<open>The separation line\<close>

lemma word_eq_of_sint: "sint y = sint a * sint x + sint b \<Longrightarrow> (y::int32) = a * x + b"
proof -
  assume h: "sint y = sint a * sint x + sint b"
  have "y = word_of_int (sint y)" by simp
  also have "\<dots> = word_of_int (sint a * sint x + sint b)" using h by simp
  also have "\<dots> = a * x + b" by simp
  finally show ?thesis .
qed

lemma isAbove_on_line:
  "y = f a b x \<or> sint y = sint a * sint x + sint b \<Longrightarrow>
   isAboveLine (x # y # rest) (f a b) = Inr 0"
  using word_eq_of_sint [of y a x b] by (auto simp: isAboveLine_def f_def)

text \<open>
  C3. A point whose \<open>y\<close> equals \<open>a * x + b\<close>, as \<open>int32\<close> computes it or in the integers,
  is labelled 0 by \<open>isAboveLine\<close>; and when the weighted sum equals zero (it is \<open>+0\<close> or
  \<open>-0\<close>), \<open>Process\<close> returns 1.
\<close>

theorem boundary_policies:
  "(y = f a b x \<or> sint y = sint a * sint x + sint b \<longrightarrow>
      isAboveLine (x # y # rest) (f a b) = Inr 0) \<and>
   (length inputs = length (weights p) \<and>
    feq (weighted_sum (bias p) inputs (weights p)) fzero \<longrightarrow>
      snd (Process p inputs) = Inr 1)"
  by (auto simp: isAbove_on_line Process_fits heaviside_def feq_zero_not_flt)

text \<open>
  The point \<open>(5, f(5))\<close> on the line \<open>y = 2x + 3\<close>; and the weights \<open>1\<close> and \<open>1\<close> with the
  bias \<open>0\<close> at the point \<open>(3, -3)\<close>, where the sum is \<open>0 + 3 - 3\<close>.
\<close>

theorem boundary_policies_witness:
  "(13 :: int32) = f 2 3 5 \<and> isAboveLine [5, 13] (f 2 3) = Inr 0 \<and>
   length [3, -3 :: int32] =
     length (weights \<lparr>weights = [Fin False 8388608 (-23), Fin False 8388608 (-23)],
                      bias = fzero\<rparr>) \<and>
   feq (weighted_sum fzero [3, -3] [Fin False 8388608 (-23), Fin False 8388608 (-23)]) fzero \<and>
   snd (Process \<lparr>weights = [Fin False 8388608 (-23), Fin False 8388608 (-23)],
                 bias = fzero\<rparr> [3, -3]) = Inr 1"
proof -
  have s: "weighted_sum fzero [3, -3] [Fin False 8388608 (-23), Fin False 8388608 (-23)] =
           fzero"
    by (simp add: float_eval)
  have l: "(13 :: int32) = f 2 3 5" by (simp add: f_def)
  show ?thesis
    using boundary_policies
      [where x = 5 and y = 13 and a = 2 and b = 3 and rest = "[]" and inputs = "[3, -3]"
         and p = "\<lparr>weights = [Fin False 8388608 (-23), Fin False 8388608 (-23)],
                   bias = fzero\<rparr>"]
    by (simp add: s l [symmetric]) (simp add: fzero_def signed_def)
qed

section \<open>The random draws\<close>

lemma sint_small:
  "- 2147483648 \<le> i \<Longrightarrow> i < 2147483648 \<Longrightarrow> sint (word_of_int i :: int32) = i"
  by (simp add: sint_sbintrunc' signed_take_bit_int_eq_self)

lemma Int31n_minus:
  assumes "0 < n" "n \<le> 2147483647" "0 \<le> c" "c \<le> 1000"
  shows "sint (fst (Int31n n g) - word_of_int c) = draws g (used g) mod n - c"
proof -
  have b: "0 \<le> draws g (used g) mod n" "draws g (used g) mod n < n"
    using assms by simp_all
  have "fst (Int31n n g) - word_of_int c = (word_of_int (draws g (used g) mod n - c) :: int32)"
    by (simp add: Int31n_def)
  then show ?thesis using sint_small [of "draws g (used g) mod n - c"] b assms by simp
qed

lemma random_point_coords:
  "fst (random_point g) =
     [fst (Int31n 201 g) - 101, fst (Int31n 201 (snd (Int31n 201 g))) - 101]"
  by (simp add: random_point_def split: prod.split)

lemma random_point_length: "length (fst (random_point g)) = 2"
  by (simp add: random_point_coords)

text \<open>
  C4, on the code. Each coordinate is a draw from \<open>[0, 200]\<close> less 101: it lies between
  \<open>-101\<close> and \<open>99\<close>, and is never 100.
\<close>

theorem random_point_range:
  "length (fst (random_point g)) = 2 \<and>
   - 101 \<le> sint (fst (random_point g) ! 0) \<and> sint (fst (random_point g) ! 0) \<le> 99 \<and>
   - 101 \<le> sint (fst (random_point g) ! 1) \<and> sint (fst (random_point g) ! 1) \<le> 99 \<and>
   sint (fst (random_point g) ! 0) \<noteq> 100 \<and> sint (fst (random_point g) ! 1) \<noteq> 100"
proof -
  have x: "sint (fst (Int31n 201 g) - 101) = draws g (used g) mod 201 - 101"
    using Int31n_minus [of 201 101 g] by simp
  have y: "sint (fst (Int31n 201 (snd (Int31n 201 g))) - 101) =
           draws (snd (Int31n 201 g)) (used (snd (Int31n 201 g))) mod 201 - 101"
    using Int31n_minus [of 201 101 "snd (Int31n 201 g)"] by simp
  have bx: "draws g (used g) mod 201 \<le> 200"
    using pos_mod_bound [of 201 "draws g (used g)"] by linarith
  have "draws (snd (Int31n 201 g)) (used (snd (Int31n 201 g))) mod 201 \<le> 200"
    using pos_mod_bound [of 201 "draws (snd (Int31n 201 g)) (used (snd (Int31n 201 g)))"]
    by linarith
  then show ?thesis using bx by (auto simp: random_point_coords x y)
qed

text \<open>The greatest draws, 200 and 200, give the point \<open>(99, 99)\<close>; the least, \<open>(-101, -101)\<close>.\<close>

lemma random_point_greatest:
  "fst (random_point \<lparr>draws = (\<lambda>k. 200), used = 0\<rparr>) = [99, 99]"
  by (simp add: random_point_def Int31n_def)

lemma random_point_least:
  "fst (random_point \<lparr>draws = (\<lambda>k. 0), used = 0\<rparr>) = [- 101, - 101]"
  by (simp add: random_point_def Int31n_def)

text \<open>
  C5, on the code. \<open>a\<close> is a draw from \<open>[0, 10]\<close> less 6 and \<open>b\<close> a draw from \<open>[0, 100]\<close>
  less 51: \<open>a\<close> lies between \<open>-6\<close> and \<open>4\<close> and is never 5, \<open>b\<close> lies between \<open>-51\<close> and
  \<open>49\<close> and is never 50.
\<close>

theorem main_line_range:
  "- 6 \<le> sint (fst (fst (main_line g))) \<and> sint (fst (fst (main_line g))) \<le> 4 \<and>
   - 51 \<le> sint (snd (fst (main_line g))) \<and> sint (snd (fst (main_line g))) \<le> 49 \<and>
   sint (fst (fst (main_line g))) \<noteq> 5 \<and> sint (snd (fst (main_line g))) \<noteq> 50"
proof -
  have ab: "fst (main_line g) =
            (fst (Int31n 11 g) - 6, fst (Int31n 101 (snd (Int31n 11 g))) - 51)"
    by (simp add: main_line_def split: prod.split)
  have a: "sint (fst (Int31n 11 g) - 6) = draws g (used g) mod 11 - 6"
    using Int31n_minus [of 11 6 g] by simp
  have b: "sint (fst (Int31n 101 (snd (Int31n 11 g))) - 51) =
           draws (snd (Int31n 11 g)) (used (snd (Int31n 11 g))) mod 101 - 51"
    using Int31n_minus [of 101 51 "snd (Int31n 11 g)"] by simp
  have ba: "draws g (used g) mod 11 \<le> 10"
    using pos_mod_bound [of 11 "draws g (used g)"] by linarith
  have "draws (snd (Int31n 11 g)) (used (snd (Int31n 11 g))) mod 101 \<le> 100"
    using pos_mod_bound [of 101 "draws (snd (Int31n 11 g)) (used (snd (Int31n 11 g)))"]
    by linarith
  then show ?thesis using ba by (auto simp: ab a b)
qed

lemma main_line_greatest:
  "fst (main_line \<lparr>draws = (\<lambda>k. if k = 0 then 10 else 100), used = 0\<rparr>) = (4, 49)"
  by (simp add: main_line_def Int31n_def)

section \<open>Training\<close>

text \<open>
  C10. With an iteration count of zero or less, \<open>train\<close> returns the perceptron and the
  generator as it received them: no weight and no bias changes and nothing is drawn.
\<close>

theorem train_no_iterations:
  "iters \<le> 0 \<Longrightarrow> train a b p iters rate g = ((p, g), Inr ())"
  by (simp add: train_def train_loop.simps)

theorem train_no_iterations_witness:
  "(-3 :: int) \<le> 0 \<and>
   train 2 3 \<lparr>weights = [fzero, fzero], bias = fzero\<rparr> (-3) (Fin False 13421773 (-27))
     \<lparr>draws = (\<lambda>k. 7), used = 0\<rparr> =
   ((\<lparr>weights = [fzero, fzero], bias = fzero\<rparr>, \<lparr>draws = (\<lambda>k. 7), used = 0\<rparr>), Inr ())"
  using train_no_iterations
    [where iters = "-3" and a = 2 and b = 3
       and p = "\<lparr>weights = [fzero, fzero], bias = fzero\<rparr>"
       and rate = "Fin False 13421773 (-27)" and g = "\<lparr>draws = (\<lambda>k. 7), used = 0\<rparr>"]
  by simp

section \<open>Verification\<close>

lemma isAboveLine_pair: "length point = 2 \<Longrightarrow> \<exists>e. isAboveLine point (f a b) = Inr e"
  by (cases point; cases "tl point") (auto simp: isAboveLine_def)

lemma verify_loop_counts:
  assumes w: "2 \<le> length (weights p)"
  shows "k \<le> 100 \<Longrightarrow>
    snd (verify_loop a b p (100 - int k) n c g) =
      Inr (n + of_nat (correct_count a b p (sample_points k g)))"
proof (induction k arbitrary: n c g)
  case 0
  then show ?case by (simp add: verify_loop.simps correct_count_def)
next
  case (Suc k)
  obtain point g' where rp: "random_point g = (point, g')" by (cases "random_point g")
  have len: "length point = 2" using random_point_length [of g] rp by simp
  then have P: "Process p point = (p, Inr (heaviside (weighted_sum (bias p) point (weights p))))"
    using w by (simp add: Process_fits)
  obtain e where e: "isAboveLine point (f a b) = Inr e"
    using isAboveLine_pair [OF len] by blast
  let ?r = "heaviside (weighted_sum (bias p) point (weights p))"
  have i: "100 - int (Suc k) < 100" "100 - int (Suc k) + 1 = 100 - int k" by simp_all
  have step: "verify_loop a b p (100 - int (Suc k)) n c g =
        verify_loop a b p (100 - int k) (if ?r = e then n + 1 else n)
          (c @ [DrawPoint (point ! 0) (point ! 1) (?r = 1)]) g'"
    by (subst verify_loop.simps) (simp add: rp P e i del: of_nat_Suc)
  have ag: "agrees a b p point = (?r = e)"
    by (simp add: agrees_def P e)
  have k: "k \<le> 100" using Suc.prems by simp
  have "snd (verify_loop a b p (100 - int (Suc k)) n c g) =
        snd (verify_loop a b p (100 - int k) (if ?r = e then n + 1 else n)
          (c @ [DrawPoint (point ! 0) (point ! 1) (?r = 1)]) g')"
    by (simp only: step)
  also have "\<dots> = Inr ((if ?r = e then n + 1 else n) +
                      of_nat (correct_count a b p (sample_points k g')))"
    by (rule Suc.IH [OF k])
  also have "\<dots> = Inr (n + of_nat (correct_count a b p (sample_points (Suc k) g)))"
    by (simp add: rp ag correct_count_def)
  finally show ?case .
qed

lemma correct_count_le: "correct_count a b p (sample_points k g) \<le> k"
proof -
  have "length (sample_points k g) = k" by (induction k arbitrary: g) auto
  then show ?thesis
    unfolding correct_count_def by (metis length_filter_le)
qed

text \<open>
  C9. For a perceptron of at least two weights (the program's has two), \<open>verify\<close> returns
  the number of its 100 points on which the answer of \<open>Process\<close> equals the label of
  \<open>isAboveLine\<close>, a number between 0 and 100.
\<close>

theorem verify_counts:
  "2 \<le> length (weights p) \<Longrightarrow>
   snd (verify a b p g) = Inr (of_nat (correct_count a b p (sample_points 100 g))) \<and>
   correct_count a b p (sample_points 100 g) \<le> 100 \<and>
   sint (of_nat (correct_count a b p (sample_points 100 g)) :: int32) =
     int (correct_count a b p (sample_points 100 g))"
proof -
  have range: "sint (of_nat n :: int32) = int n" if "n \<le> 100" for n
  proof -
    have "(of_nat n :: int32) = word_of_int (int n)" by simp
    then show ?thesis using sint_small [of "int n"] that by simp
  qed
  assume w: "2 \<le> length (weights p)"
  have "snd (verify_loop a b p 0 0 [] g) =
        Inr (of_nat (correct_count a b p (sample_points 100 g)))"
    using verify_loop_counts [OF w, of 100 a b 0 "[]" g] by simp
  then have "snd (verify a b p g) = Inr (of_nat (correct_count a b p (sample_points 100 g)))"
    by (cases "verify_loop a b p 0 0 [] g") (auto simp: verify_def split: prod.split sum.split)
  then show ?thesis
    using correct_count_le [of a b p 100 g] range [OF correct_count_le [of a b p 100 g]]
    by simp
qed


text \<open>
  The weights \<open>0\<close> and \<open>0\<close> with the bias \<open>1\<close> answer 1 everywhere; with every draw 0 each
  point is \<open>(-101, -101)\<close>, above the line \<open>y = 2x + 3\<close>: all 100 answers are right.
\<close>

theorem verify_counts_witness:
  "2 \<le> length (weights \<lparr>weights = [fzero, fzero], bias = Fin False 8388608 (-23)\<rparr>) \<and>
   snd (verify 2 3 \<lparr>weights = [fzero, fzero], bias = Fin False 8388608 (-23)\<rparr>
          \<lparr>draws = (\<lambda>k. 0), used = 0\<rparr>) = Inr 100"
proof -
  let ?p = "\<lparr>weights = [fzero, fzero], bias = Fin False 8388608 (-23)\<rparr>"
  have sp: "draws g = (\<lambda>k. 0) \<Longrightarrow> sample_points k g = replicate k [- 101, - 101]" for k g
  proof (induction k arbitrary: g)
    case 0
    then show ?case by simp
  next
    case (Suc k)
    have "fst (random_point g) = [- 101, - 101]"
      using Suc.prems by (simp add: random_point_def Int31n_def)
    moreover have "draws (snd (random_point g)) = (\<lambda>k. 0)"
      using Suc.prems by (simp add: random_point_def Int31n_def)
    ultimately show ?case using Suc.IH by simp
  qed
  have ag: "agrees 2 3 ?p [- 101, - 101]"
    by (simp add: agrees_def Process_def isAboveLine_def f_def float_eval)
  have cc: "correct_count 2 3 ?p (sample_points 100 \<lparr>draws = (\<lambda>k. 0), used = 0\<rparr>) = 100"
    by (simp add: sp correct_count_def ag)
  show ?thesis
    using verify_counts
      [where p = ?p and a = 2 and b = 3 and g = "\<lparr>draws = (\<lambda>k. 0), used = 0\<rparr>"]
    by (simp add: cc)
qed

end
